theory Spec2Isabelle
  imports Main
begin

section \<open>Python values handled by the result decoder\<close>

text \<open>
  The values that reach \<^verbatim>\<open>_bitarray_to_strings\<close> and \<^verbatim>\<open>_to_bits\<close> of
  \<^verbatim>\<open>quantum_sort_ibm.py\<close>: integers, booleans (a subclass of \<^verbatim>\<open>int\<close> in Python),
  \<^verbatim>\<open>None\<close>, and lists and tuples of such values. Python integers are unbounded.
\<close>

datatype pyval =
    PyInt int
  | PyBool bool
  | PyNone
  | PyList "pyval list"
  | PyTuple "pyval list"

text \<open>
  The two \<^verbatim>\<open>RuntimeError\<close>s of \<^verbatim>\<open>_bitarray_to_strings\<close>, told apart by their message;
  the second carries the \<^verbatim>\<open>repr\<close> of the row, which the f-string of the message renders.
\<close>

datatype runtime_msg =
    UnrecognisedInternals
  | UnexpectedRow string

datatype error =
    AttributeError
  | TypeError
  | ValueError
  | OverflowError
  | RuntimeError runtime_msg

subsection \<open>Rendering integers: \<^verbatim>\<open>str(n)\<close> and \<^verbatim>\<open>format(n, "0{width}b")\<close>\<close>

definition digit_char :: "nat \<Rightarrow> char" where
  "digit_char d = ''0123456789'' ! d"

definition bit_char :: "bool \<Rightarrow> char" where
  "bit_char b = (if b then CHR ''1'' else CHR ''0'')"

fun dec_digits :: "nat \<Rightarrow> string" where
  "dec_digits n =
     (if n < 10 then [digit_char n] else dec_digits (n div 10) @ [digit_char (n mod 10)])"

fun bin_digits :: "nat \<Rightarrow> string" where
  "bin_digits n =
     (if n < 2 then [bit_char (n = 1)] else bin_digits (n div 2) @ [bit_char (n mod 2 = 1)])"

declare dec_digits.simps [simp del]
declare bin_digits.simps [simp del]

text \<open>
  \<^verbatim>\<open>str(i)\<close> and \<^verbatim>\<open>repr(i)\<close> for an integer \<open>i\<close>. CPython refuses the conversion to
  decimal of an integer with more digits than \<^verbatim>\<open>sys.get_int_max_str_digits()\<close>, by default
  4300, and raises \<^verbatim>\<open>ValueError\<close>; the sign does not count. The conversion to binary of
  \<^verbatim>\<open>format\<close> has no such limit.
\<close>

definition int_max_str_digits :: nat where
  "int_max_str_digits = 4300"

definition within_digit_limit :: "int \<Rightarrow> bool" where
  "within_digit_limit i = (length (dec_digits (nat \<bar>i\<bar>)) \<le> int_max_str_digits)"

definition str_int :: "int \<Rightarrow> error + string" where
  "str_int i =
     (if within_digit_limit i
      then Inr (if i < 0 then CHR ''-'' # dec_digits (nat (- i)) else dec_digits (nat i))
      else Inl ValueError)"

definition zero_pad :: "nat \<Rightarrow> string \<Rightarrow> string" where
  "zero_pad w s = replicate (w - length s) (CHR ''0'') @ s"

text \<open>
  \<^verbatim>\<open>format(i, f"0{width}b")\<close>: binary digits, padded with zeros on the left up to
  \<open>width\<close> characters. Zero padding is sign-aware: the minus sign of a negative number
  comes first and counts towards the width. A number that needs more than \<open>width\<close>
  digits is not truncated.
\<close>

definition format_0b :: "nat \<Rightarrow> int \<Rightarrow> string" where
  "format_0b width i =
     (if i < 0 then CHR ''-'' # zero_pad (width - 1) (bin_digits (nat (- i)))
      else zero_pad width (bin_digits (nat i)))"

subsection \<open>\<^verbatim>\<open>int(b)\<close>, \<^verbatim>\<open>isinstance\<close> and the join over a row\<close>

fun py_int :: "pyval \<Rightarrow> error + int" where
  "py_int (PyInt i) = Inr i"
| "py_int (PyBool b) = Inr (if b then 1 else 0)"
| "py_int PyNone = Inl TypeError"
| "py_int (PyList xs) = Inl TypeError"
| "py_int (PyTuple xs) = Inl TypeError"

text \<open>\<^verbatim>\<open>isinstance(sample, (list, tuple))\<close> and the elements of such a sample.\<close>

fun is_seq :: "pyval \<Rightarrow> bool" where
  "is_seq (PyList xs) = True"
| "is_seq (PyTuple xs) = True"
| "is_seq v = False"

fun items :: "pyval \<Rightarrow> pyval list" where
  "items (PyList xs) = xs"
| "items (PyTuple xs) = xs"
| "items v = []"

text \<open>\<^verbatim>\<open>isinstance(sample, int)\<close>, true of booleans as well.\<close>

fun is_int :: "pyval \<Rightarrow> bool" where
  "is_int (PyInt i) = True"
| "is_int (PyBool b) = True"
| "is_int v = False"

fun int_value :: "pyval \<Rightarrow> int" where
  "int_value (PyInt i) = i"
| "int_value (PyBool b) = (if b then 1 else 0)"
| "int_value v = 0"

text \<open>
  \<^verbatim>\<open>''.join(str(int(b)) for b in xs)\<close>: the generator computes \<^verbatim>\<open>str(int(b))\<close> entry by
  entry, so the first entry for which \<^verbatim>\<open>int\<close> or \<^verbatim>\<open>str\<close> raises ends the join with that
  error.
\<close>

fun join_bits :: "pyval list \<Rightarrow> error + string" where
  "join_bits [] = Inr []"
| "join_bits (b # bs) =
     (case py_int b of
        Inl e \<Rightarrow> Inl e
      | Inr i \<Rightarrow>
          (case str_int i of
             Inl e \<Rightarrow> Inl e
           | Inr d \<Rightarrow> (case join_bits bs of Inl e \<Rightarrow> Inl e | Inr s \<Rightarrow> Inr (d @ s))))"

text \<open>
  \<^verbatim>\<open>repr(v)\<close>, which for these values is also \<^verbatim>\<open>str(v)\<close>. The elements of a list or
  tuple are rendered in order, and the first one that raises ends the rendering.
\<close>

fun join_comma :: "string list \<Rightarrow> string" where
  "join_comma [] = []"
| "join_comma [s] = s"
| "join_comma (s # t # ss) = s @ '', '' @ join_comma (t # ss)"

fun collect :: "(error + 'a) list \<Rightarrow> error + 'a list" where
  "collect [] = Inr []"
| "collect (r # rs) =
     (case r of
        Inl e \<Rightarrow> Inl e
      | Inr x \<Rightarrow> (case collect rs of Inl e \<Rightarrow> Inl e | Inr xs \<Rightarrow> Inr (x # xs)))"

fun py_str :: "pyval \<Rightarrow> error + string" where
  "py_str (PyInt i) = str_int i"
| "py_str (PyBool b) = Inr (if b then ''True'' else ''False'')"
| "py_str PyNone = Inr ''None''"
| "py_str (PyList xs) =
     (case collect (map py_str xs) of
        Inl e \<Rightarrow> Inl e
      | Inr ss \<Rightarrow> Inr (''['' @ join_comma ss @ '']''))"
| "py_str (PyTuple xs) =
     (case collect (map py_str xs) of
        Inl e \<Rightarrow> Inl e
      | Inr ss \<Rightarrow> Inr (''('' @ join_comma ss @ (if length xs = 1 then '',)'' else '')'')))"

section \<open>\<^verbatim>\<open>_bitarray_to_strings\<close>\<close>

text \<open>
  The bit-array object is read through four attributes only. \<open>tolist_rows\<close> is the
  result of \<^verbatim>\<open>bitarr.tolist()\<close> when the object has that method; \<open>array_private\<close> and
  \<open>array_public\<close> are \<^verbatim>\<open>bitarr._array.tolist()\<close> and \<^verbatim>\<open>bitarr.array.tolist()\<close>, with
  \<open>None\<close> for an attribute that is missing or \<^verbatim>\<open>None\<close>; \<open>num_bits\<close> is the attribute of
  that name when present.
\<close>

record bitarr =
  tolist_rows :: "pyval list option"
  array_private :: "pyval list option"
  array_public :: "pyval list option"
  num_bits :: "nat option"

definition get_rows :: "bitarr \<Rightarrow> error + pyval list" where
  "get_rows b =
     (case tolist_rows b of
        Some rows \<Rightarrow> Inr rows
      | None \<Rightarrow>
          (case array_private b of
             Some rows \<Rightarrow> Inr rows
           | None \<Rightarrow>
               (case array_public b of
                  Some rows \<Rightarrow> Inr rows
                | None \<Rightarrow> Inl (RuntimeError UnrecognisedInternals))))"

text \<open>\<^verbatim>\<open>width = getattr(bitarr, "num_bits", 3)\<close>\<close>

definition get_width :: "bitarr \<Rightarrow> nat" where
  "get_width b = (case num_bits b of Some w \<Rightarrow> w | None \<Rightarrow> 3)"

text \<open>
  The body of the loop over the rows: the string appended for one sample, or the error
  raised. In the last branch the message of the \<^verbatim>\<open>RuntimeError\<close> is built first, and
  \<^verbatim>\<open>repr(sample)\<close> may itself raise.
\<close>

definition sample_to_string :: "nat \<Rightarrow> pyval \<Rightarrow> error + string" where
  "sample_to_string width sample =
     (if is_seq sample \<and> length (items sample) = width then join_bits (items sample)
      else if is_seq sample \<and> length (items sample) = 1 then
        (case py_int (items sample ! 0) of
           Inl e \<Rightarrow> Inl e
         | Inr i \<Rightarrow> Inr (format_0b width i))
      else if is_int sample then Inr (format_0b width (int_value sample))
      else
        (case py_str sample of
           Inl e \<Rightarrow> Inl e
         | Inr rendered \<Rightarrow> Inl (RuntimeError (UnexpectedRow rendered))))"

fun strings_loop :: "nat \<Rightarrow> pyval list \<Rightarrow> string list \<Rightarrow> error + string list" where
  "strings_loop width [] strings = Inr strings"
| "strings_loop width (sample # rows) strings =
     (case sample_to_string width sample of
        Inl e \<Rightarrow> Inl e
      | Inr s \<Rightarrow> strings_loop width rows (strings @ [s]))"

definition bitarray_to_strings :: "bitarr \<Rightarrow> error + string list" where
  "bitarray_to_strings b =
     (case get_rows b of
        Inl e \<Rightarrow> Inl e
      | Inr rows \<Rightarrow> strings_loop (get_width b) rows [])"

section \<open>Counts mappings\<close>

text \<open>
  A \<^verbatim>\<open>dict\<close> or \<^verbatim>\<open>Counter\<close> from bitstring to count is an association list in insertion
  order. \<open>counter_add\<close> is \<^verbatim>\<open>c[k] = n + c.get(k, 0)\<close>, \<open>dict_set\<close> is \<^verbatim>\<open>d[k] = v\<close>.
\<close>

type_synonym counts = "(string \<times> int) list"

fun counter_add :: "counts \<Rightarrow> string \<Rightarrow> int \<Rightarrow> counts" where
  "counter_add [] k n = [(k, n)]"
| "counter_add ((k', c) # kvs) k n =
     (if k' = k then (k', n + c) # kvs else (k', c) # counter_add kvs k n)"

fun dict_set :: "counts \<Rightarrow> string \<Rightarrow> int \<Rightarrow> counts" where
  "dict_set [] k v = [(k, v)]"
| "dict_set ((k', c) # kvs) k v =
     (if k' = k then (k', v) # kvs else (k', c) # dict_set kvs k v)"

text \<open>\<^verbatim>\<open>Counter(strings)\<close> counts the occurrences of each element.\<close>

definition Counter :: "string list \<Rightarrow> counts" where
  "Counter strings = foldl (\<lambda>c s. counter_add c s 1) [] strings"

text \<open>\<^verbatim>\<open>aggregated.update(counts)\<close> adds the counts of a mapping to the counter.\<close>

definition counter_update :: "counts \<Rightarrow> counts \<Rightarrow> counts" where
  "counter_update aggregated cs = foldl (\<lambda>c (k, n). counter_add c k n) aggregated cs"

definition sum_values :: "counts \<Rightarrow> int" where
  "sum_values cs = sum_list (map snd cs)"

section \<open>Floating-point probabilities\<close>

text \<open>
  A Python \<^verbatim>\<open>float\<close> is an IEEE 754 binary64 number. \<open>Finite m e\<close> stands for the
  value \<open>m * 2 ^ e\<close>; the sign of a zero is not kept, since no operation below depends
  on it. The only float operations of the decoder are the product \<^verbatim>\<open>p * shots\<close> (with
  the integer \<^verbatim>\<open>shots\<close> converted to a float first) and \<^verbatim>\<open>round\<close>.
\<close>

datatype pyfloat =
    Finite int int
  | PosInf
  | NegInf
  | NaN

fun bit_length :: "nat \<Rightarrow> nat" where
  "bit_length n = (if n = 0 then 0 else Suc (bit_length (n div 2)))"

declare bit_length.simps [simp del]

text \<open>\<open>m / 2 ^ s\<close> rounded to the nearest integer, a tie going to the even neighbour.\<close>

definition round_half_even :: "int \<Rightarrow> nat \<Rightarrow> int" where
  "round_half_even m s =
     (let q = m div 2 ^ s; r = m mod 2 ^ s
      in if 2 ^ s < 2 * r \<or> (2 * r = 2 ^ s \<and> odd q) then q + 1 else q)"

text \<open>
  The binary64 number nearest to the exact value \<open>m * 2 ^ e\<close> (round to nearest, ties
  to even): 53 significant bits, the exponent of the last place between \<open>-1074\<close> and
  \<open>971\<close>, infinity beyond.
\<close>

definition to_double :: "int \<Rightarrow> int \<Rightarrow> pyfloat" where
  "to_double m e =
     (if m = 0 then Finite 0 0
      else
        let e1 = max (e + int (bit_length (nat \<bar>m\<bar>)) - 53) (- 1074);
            m1 = (if e1 \<le> e then m * 2 ^ nat (e - e1) else round_half_even m (nat (e1 - e)));
            m2 = (if \<bar>m1\<bar> = 2 ^ 53 then m1 div 2 else m1);
            e2 = (if \<bar>m1\<bar> = 2 ^ 53 then e1 + 1 else e1)
        in if 971 < e2 then (if 0 < m then PosInf else NegInf) else Finite m2 e2)"

text \<open>
  The sign of a float, \<open>0\<close> for zero and for NaN. A product with an infinite or NaN factor
  is NaN when a factor is NaN or zero, and the infinity of the product's sign otherwise.
\<close>

fun fsign :: "pyfloat \<Rightarrow> int" where
  "fsign (Finite m e) = sgn m"
| "fsign PosInf = 1"
| "fsign NegInf = - 1"
| "fsign NaN = 0"

fun fmul :: "pyfloat \<Rightarrow> pyfloat \<Rightarrow> pyfloat" where
  "fmul (Finite m1 e1) (Finite m2 e2) = to_double (m1 * m2) (e1 + e2)"
| "fmul x y =
     (if fsign x * fsign y = 0 then NaN else if 0 < fsign x * fsign y then PosInf else NegInf)"

text \<open>The conversion of the integer operand; an integer beyond the float range raises.\<close>

definition float_of_int :: "int \<Rightarrow> error + pyfloat" where
  "float_of_int n =
     (case to_double n 0 of
        PosInf \<Rightarrow> Inl OverflowError
      | NegInf \<Rightarrow> Inl OverflowError
      | d \<Rightarrow> Inr d)"

text \<open>\<^verbatim>\<open>round(x)\<close> of a float gives an integer, ties to even; it raises on infinities and NaN.\<close>

fun py_round :: "pyfloat \<Rightarrow> error + int" where
  "py_round (Finite m e) = Inr (if 0 \<le> e then m * 2 ^ nat e else round_half_even m (nat (- e)))"
| "py_round PosInf = Inl OverflowError"
| "py_round NegInf = Inl OverflowError"
| "py_round NaN = Inl ValueError"

text \<open>\<^verbatim>\<open>int(round(p * shots))\<close>\<close>

definition round_count :: "pyfloat \<Rightarrow> int \<Rightarrow> error + int" where
  "round_count p shots =
     (case float_of_int shots of
        Inl e \<Rightarrow> Inl e
      | Inr f \<Rightarrow> py_round (fmul p f))"

section \<open>\<^verbatim>\<open>_to_bits\<close>\<close>

text \<open>
  A key of a quasi-distribution is a string, an object with a \<^verbatim>\<open>to01\<close> method, or any of
  the values above, which have no such method. An object with \<^verbatim>\<open>to01\<close> is given by what
  the three operations of \<^verbatim>\<open>_to_bits\<close> do on it: the call \<^verbatim>\<open>key.to01()\<close>, the iteration
  \<^verbatim>\<open>for b in key\<close> and \<^verbatim>\<open>str(key)\<close>, each of which returns or raises. A bit array of
  bits \<open>011\<close> has \<open>to01 = Inr ''011''\<close>.
\<close>

record to01_object =
  to01 :: "error + string"
  iterated :: "error + pyval list"
  shown :: "error + string"

datatype pykey =
    KStr string
  | KObj to01_object
  | KVal pyval

text \<open>
  \<^verbatim>\<open>''.join(str(int(b)) for b in key)\<close> on a value: iterating over something that is
  not a list or tuple raises \<^verbatim>\<open>TypeError\<close>.
\<close>

definition join_iter :: "pyval \<Rightarrow> error + string" where
  "join_iter v = (if is_seq v then join_bits (items v) else Inl TypeError)"

text \<open>
  \<^verbatim>\<open>_to_bits\<close>. A string is returned as it is. Otherwise \<^verbatim>\<open>key.to01()\<close> is tried: its
  result is returned, an \<^verbatim>\<open>AttributeError\<close> is caught, any other error propagates. After
  the \<^verbatim>\<open>AttributeError\<close> (which every value without the method raises) the join is tried
  and any exception of the join is caught; the handler returns \<^verbatim>\<open>str(key)\<close>, and what
  \<^verbatim>\<open>str(key)\<close> raises is not caught by anything.
\<close>

fun to_bits :: "pykey \<Rightarrow> error + string" where
  "to_bits (KStr s) = Inr s"
| "to_bits (KObj obj) =
     (case to01 obj of
        Inr s \<Rightarrow> Inr s
      | Inl e \<Rightarrow>
          if e = AttributeError then
            (case (case iterated obj of Inl e' \<Rightarrow> Inl e' | Inr xs \<Rightarrow> join_bits xs) of
               Inr s \<Rightarrow> Inr s
             | Inl e' \<Rightarrow> shown obj)
          else Inl e)"
| "to_bits (KVal v) = (case join_iter v of Inr s \<Rightarrow> Inr s | Inl e \<Rightarrow> py_str v)"

section \<open>\<^verbatim>\<open>run\<close>: one counts mapping per trial, folded into the aggregate\<close>

text \<open>
  What the backend hands back for one trial: in hardware mode a result with
  quasi-distributions (the keys and the probabilities of the first one) or a result whose
  first entry holds a bit array; from the local simulator a counts mapping.
\<close>

datatype raw_result =
    QuasiDists "pykey list" "pyfloat list"
  | PubResult bitarr
  | AerCounts counts

text \<open>The dictionary comprehension over \<^verbatim>\<open>zip(q.keys(), q.probabilities())\<close>.\<close>

fun quasi_counts :: "int \<Rightarrow> (pykey \<times> pyfloat) list \<Rightarrow> counts \<Rightarrow> error + counts" where
  "quasi_counts shots [] d = Inr d"
| "quasi_counts shots ((k, p) # kps) d =
     (case to_bits k of
        Inl e \<Rightarrow> Inl e
      | Inr s \<Rightarrow>
          (case round_count p shots of
             Inl e \<Rightarrow> Inl e
           | Inr c \<Rightarrow> quasi_counts shots kps (dict_set d s c)))"

definition trial_counts :: "int \<Rightarrow> raw_result \<Rightarrow> error + counts" where
  "trial_counts shots raw =
     (case raw of
        QuasiDists keys probabilities \<Rightarrow> quasi_counts shots (zip keys probabilities) []
      | PubResult b \<Rightarrow>
          (case bitarray_to_strings b of
             Inl e \<Rightarrow> Inl e
           | Inr strings \<Rightarrow> Inr (Counter strings))
      | AerCounts cs \<Rightarrow> Inr cs)"

text \<open>
  The loop of \<^verbatim>\<open>run\<close> over the trials; \<open>raws\<close> lists the backend's results in the order
  of the calls, so the number of trials is its length. The result is the counter
  \<^verbatim>\<open>aggregated\<close> after the loop.
\<close>

fun run_loop :: "int \<Rightarrow> raw_result list \<Rightarrow> counts \<Rightarrow> error + counts" where
  "run_loop shots [] aggregated = Inr aggregated"
| "run_loop shots (raw # raws) aggregated =
     (case trial_counts shots raw of
        Inl e \<Rightarrow> Inl e
      | Inr cs \<Rightarrow> run_loop shots raws (counter_update aggregated cs))"

definition run_aggregated :: "int \<Rightarrow> raw_result list \<Rightarrow> error + counts" where
  "run_aggregated shots raws = run_loop shots raws []"

section \<open>Input classes and the reading of a binary string\<close>

text \<open>
  The value of a string of binary digits, most significant first; no value for the empty
  string or a string with any other character. The scripts only encode
  (\<^verbatim>\<open>format(n, "0{width}b")\<close>); this reading is what the encoding is compared with.
\<close>

fun binary_value :: "string \<Rightarrow> nat \<Rightarrow> nat option" where
  "binary_value [] acc = Some acc"
| "binary_value (c # cs) acc =
     (if c = CHR ''0'' then binary_value cs (2 * acc)
      else if c = CHR ''1'' then binary_value cs (2 * acc + 1)
      else None)"

definition decode_binary :: "string \<Rightarrow> int option" where
  "decode_binary s = (if s = [] then None else map_option int (binary_value s 0))"

text \<open>The raw samples of the data model, for a register of \<open>W\<close> bits.\<close>

definition is_bit_value :: "pyval \<Rightarrow> bool" where
  "is_bit_value v = (v = PyInt 0 \<or> v = PyInt 1)"

fun in_range :: "nat \<Rightarrow> pyval \<Rightarrow> bool" where
  "in_range W (PyInt n) = (0 \<le> n \<and> n < 2 ^ W)"
| "in_range W v = False"

definition bit_row :: "nat \<Rightarrow> pyval \<Rightarrow> bool" where
  "bit_row W r = (is_seq r \<and> length (items r) = W \<and> list_all is_bit_value (items r))"

definition valid_row :: "nat \<Rightarrow> pyval \<Rightarrow> bool" where
  "valid_row W r =
     (bit_row W r \<or> (is_seq r \<and> length (items r) = 1 \<and> in_range W (items r ! 0)) \<or> in_range W r)"

fun valid_key :: "nat \<Rightarrow> pykey \<Rightarrow> bool" where
  "valid_key W (KStr s) = (length s = W)"
| "valid_key W (KObj obj) = (case to01 obj of Inl e \<Rightarrow> False | Inr s \<Rightarrow> length s = W)"
| "valid_key W (KVal v) = bit_row W v"

fun valid_raw :: "nat \<Rightarrow> raw_result \<Rightarrow> bool" where
  "valid_raw W (QuasiDists keys probabilities) = list_all (valid_key W) keys"
| "valid_raw W (PubResult b) =
     (get_width b = W \<and>
      (case get_rows b of Inl e \<Rightarrow> False | Inr rows \<Rightarrow> list_all (valid_row W) rows))"
| "valid_raw W (AerCounts cs) = list_all (\<lambda>kv. length (fst kv) = W) cs"






text \<open>
  A trial delivers \<open>S\<close> samples when its result is a bit array of \<open>S\<close> rows or a counts
  mapping of the simulator whose counts total \<open>S\<close>.
\<close>

fun delivers :: "int \<Rightarrow> raw_result \<Rightarrow> bool" where
  "delivers S (QuasiDists keys probabilities) = False"
| "delivers S (PubResult b) =
     (case get_rows b of Inl e \<Rightarrow> False | Inr rows \<Rightarrow> int (length rows) = S)"
| "delivers S (AerCounts cs) = (sum_values cs = S)"

text \<open>A probability that is not negative (and not NaN).\<close>

fun nonneg_float :: "pyfloat \<Rightarrow> bool" where
  "nonneg_float (Finite m e) = (0 \<le> m)"
| "nonneg_float PosInf = True"
| "nonneg_float NegInf = False"
| "nonneg_float NaN = False"

text \<open>
  The floats that the literals \<^verbatim>\<open>0.6\<close> and \<^verbatim>\<open>0.4\<close> denote. \<open>nearest_double num den x\<close>
  says that \<open>x\<close> is a normal binary64 number within half a unit in the last place of the
  fraction \<open>num / den\<close>.
\<close>

definition float_0_6 :: pyfloat where
  "float_0_6 = Finite 5404319552844595 (- 53)"

definition float_0_4 :: pyfloat where
  "float_0_4 = Finite 7205759403792794 (- 54)"

fun nearest_double :: "int \<Rightarrow> int \<Rightarrow> pyfloat \<Rightarrow> bool" where
  "nearest_double num den (Finite m e) =
     (0 < den \<and> 2 ^ 52 \<le> m \<and> m < 2 ^ 53 \<and> e \<le> 0
      \<and> 2 * \<bar>m * den - num * 2 ^ nat (- e)\<bar> \<le> den)"
| "nearest_double num den x = False"

text \<open>
  More literals: \<^verbatim>\<open>0.75\<close> and \<^verbatim>\<open>0.25\<close> are binary64 numbers themselves, \<^verbatim>\<open>0.35\<close> is not.
\<close>

definition float_0_75 :: pyfloat where
  "float_0_75 = Finite 6755399441055744 (- 53)"

definition float_0_25 :: pyfloat where
  "float_0_25 = Finite 4503599627370496 (- 54)"

definition float_0_35 :: pyfloat where
  "float_0_35 = Finite 6305039478318694 (- 54)"



section \<open>Properties of the rendering functions\<close>

lemma bin_digits_nonempty: "bin_digits n \<noteq> []"
  by (subst bin_digits.simps) simp

lemma length_bin_digits_le: "n < 2 ^ w \<Longrightarrow> 0 < w \<Longrightarrow> length (bin_digits n) \<le> w"
proof (induction n arbitrary: w rule: bin_digits.induct)
  case (1 n)
  show ?case
  proof (cases "n < 2")
    case True
    then show ?thesis using "1.prems" by (simp add: bin_digits.simps)
  next
    case False
    then obtain w' where w: "w = Suc w'" using "1.prems" by (cases w) auto
    with False "1.prems" have "0 < w'" by (cases w') auto
    moreover have "n div 2 < 2 ^ w'" using "1.prems" w by auto
    ultimately have "length (bin_digits (n div 2)) \<le> w'" using "1.IH" False by simp
    then show ?thesis using False w by (simp add: bin_digits.simps[of n])
  qed
qed

lemma length_bin_digits_gt: "2 ^ w \<le> n \<Longrightarrow> w < length (bin_digits n)"
proof (induction n arbitrary: w rule: bin_digits.induct)
  case (1 n)
  show ?case
  proof (cases "n < 2")
    case True
    have "w = 0"
    proof (rule ccontr)
      assume "w \<noteq> 0"
      then have "(2::nat) ^ 1 \<le> 2 ^ w" by (intro power_increasing) auto
      with True "1.prems" show False by simp
    qed
    then show ?thesis using True by (simp add: bin_digits.simps)
  next
    case False
    show ?thesis
    proof (cases w)
      case 0
      then show ?thesis by (simp add: bin_digits.simps[of n])
    next
      case (Suc w')
      then have "2 ^ w' \<le> n div 2" using "1.prems" by auto
      then have "w' < length (bin_digits (n div 2))" using "1.IH" False by simp
      then show ?thesis using False Suc by (simp add: bin_digits.simps[of n])
    qed
  qed
qed

lemma length_zero_pad: "length (zero_pad w s) = max w (length s)"
  by (simp add: zero_pad_def)

lemma length_format_0b_in_range:
  assumes "0 \<le> n" "n < 2 ^ w" "0 < w"
  shows "length (format_0b w n) = w"
proof -
  have "nat n < 2 ^ w" using assms by (simp add: nat_less_iff)
  then have "length (bin_digits (nat n)) \<le> w" using assms(3) by (rule length_bin_digits_le)
  then show ?thesis using assms(1) by (simp add: format_0b_def length_zero_pad)
qed

lemma length_format_0b_beyond:
  assumes "2 ^ w \<le> n"
  shows "w < length (format_0b w n)"
proof -
  have "(0::int) \<le> 2 ^ w" by simp
  then have pos: "0 \<le> n" using assms by (rule order_trans)
  have "2 ^ w \<le> nat n" using assms pos by (simp add: le_nat_iff)
  then have "w < length (bin_digits (nat n))" by (rule length_bin_digits_gt)
  then show ?thesis using pos by (simp add: format_0b_def length_zero_pad)
qed

lemma binary_value_append:
  "binary_value (s @ t) acc =
     (case binary_value s acc of None \<Rightarrow> None | Some a \<Rightarrow> binary_value t a)"
  by (induction s arbitrary: acc) auto

lemma binary_value_zeros: "binary_value (replicate k (CHR ''0'')) acc = Some (acc * 2 ^ k)"
  by (induction k arbitrary: acc) auto

lemma binary_value_bin_digits:
  "binary_value (bin_digits n) acc = Some (acc * 2 ^ length (bin_digits n) + n)"
proof (induction n arbitrary: acc rule: bin_digits.induct)
  case (1 n)
  show ?case
  proof (cases "n < 2")
    case True
    then have "n = 0 \<or> n = 1" by auto
    then show ?thesis
    proof
      assume "n = 0"
      then show ?thesis by (simp add: bin_digits.simps bit_char_def)
    next
      assume "n = 1"
      then show ?thesis by (simp add: bin_digits.simps bit_char_def)
    qed
  next
    case False
    have split: "bin_digits n = bin_digits (n div 2) @ [bit_char (n mod 2 = 1)]"
      using False by (subst bin_digits.simps) simp
    have half: "binary_value (bin_digits (n div 2)) acc =
        Some (acc * 2 ^ length (bin_digits (n div 2)) + n div 2)"
      using "1.IH"[OF False] .
    have "2 * (n div 2) + (if n mod 2 = 1 then 1 else 0) = n" by presburger
    then have "2 * (acc * 2 ^ length (bin_digits (n div 2)) + n div 2) + (if n mod 2 = 1 then 1 else 0)
        = acc * 2 ^ length (bin_digits n) + n"
      by (simp add: split algebra_simps)
    then show ?thesis
      by (simp add: split binary_value_append half bit_char_def split: if_splits)
  qed
qed

lemma decode_format:
  assumes "0 \<le> n"
  shows "decode_binary (format_0b w n) = Some n"
proof -
  have ne: "zero_pad w (bin_digits (nat n)) \<noteq> []"
    by (simp add: zero_pad_def bin_digits_nonempty)
  have "binary_value (zero_pad w (bin_digits (nat n))) 0 = Some (nat n)"
    by (simp add: zero_pad_def binary_value_append binary_value_zeros binary_value_bin_digits)
  then show ?thesis using assms ne by (simp add: decode_binary_def format_0b_def)
qed




lemma within_digit_limit_digit: "0 \<le> n \<Longrightarrow> n < 10 \<Longrightarrow> within_digit_limit n"
  by (simp add: within_digit_limit_def dec_digits.simps int_max_str_digits_def)

lemma str_int_digit: "0 \<le> n \<Longrightarrow> n < 10 \<Longrightarrow> str_int n = Inr [digit_char (nat n)]"
  by (simp add: str_int_def within_digit_limit_digit dec_digits.simps)



section \<open>Properties of the counters and of the loop over the rows\<close>

lemma sum_values_counter_add: "sum_values (counter_add c k n) = sum_values c + n"
  by (induction c k n rule: counter_add.induct) (auto simp: sum_values_def)

lemma keys_counter_add: "fst ` set (counter_add c k n) = insert k (fst ` set c)"
  by (induction c k n rule: counter_add.induct) auto

lemma sum_values_count_fold:
  "sum_values (foldl (\<lambda>c s. counter_add c s 1) c0 strings) = sum_values c0 + int (length strings)"
  by (induction strings arbitrary: c0) (auto simp: sum_values_counter_add)

lemma keys_count_fold:
  "fst ` set (foldl (\<lambda>c s. counter_add c s 1) c0 strings) = fst ` set c0 \<union> set strings"
  by (induction strings arbitrary: c0) (auto simp: keys_counter_add)

lemma sum_values_Counter: "sum_values (Counter strings) = int (length strings)"
  using sum_values_count_fold [of "[]" strings] by (simp add: Counter_def sum_values_def)

lemma keys_Counter: "fst ` set (Counter strings) = set strings"
  by (simp add: Counter_def keys_count_fold)

lemma sum_values_counter_update:
  "sum_values (counter_update aggregated cs) = sum_values aggregated + sum_values cs"
proof -
  have "sum_values (foldl (\<lambda>c (k, n). counter_add c k n) a cs) = sum_values a + sum_values cs"
    for a
  proof (induction cs arbitrary: a)
    case Nil
    show ?case by (simp add: sum_values_def)
  next
    case (Cons kv cs)
    obtain k n where kv: "kv = (k, n)" by (cases kv)
    have "sum_values (kv # cs) = n + sum_values cs" by (simp add: kv sum_values_def)
    then show ?case by (simp add: Cons.IH kv sum_values_counter_add)
  qed
  then show ?thesis by (simp add: counter_update_def)
qed

lemma strings_loop_append:
  "strings_loop w rows acc = Inr strings \<Longrightarrow>
     \<exists>new. strings = acc @ new \<and> length new = length rows
       \<and> (\<forall>i < length rows. sample_to_string w (rows ! i) = Inr (new ! i))"
proof (induction rows arbitrary: acc)
  case Nil
  then show ?case by simp
next
  case (Cons r rows)
  from Cons.prems obtain s where s: "sample_to_string w r = Inr s"
    and rest: "strings_loop w rows (acc @ [s]) = Inr strings"
    by (auto split: sum.splits)
  from Cons.IH[OF rest] obtain new where new: "strings = (acc @ [s]) @ new"
    "length new = length rows" "\<forall>i < length rows. sample_to_string w (rows ! i) = Inr (new ! i)"
    by blast
  have "\<forall>i < length (r # rows). sample_to_string w ((r # rows) ! i) = Inr ((s # new) ! i)"
  proof (intro allI impI)
    fix i assume "i < length (r # rows)"
    then show "sample_to_string w ((r # rows) ! i) = Inr ((s # new) ! i)"
      using s new(3) by (cases i) auto
  qed
  with new show ?case by (intro exI[of _ "s # new"]) simp
qed













section \<open>Widths of the strings produced\<close>

lemma keys_dict_set: "fst ` set (dict_set d k v) = insert k (fst ` set d)"
  by (induction d k v rule: dict_set.induct) auto

lemma join_bits_bit_values:
  "list_all is_bit_value xs \<Longrightarrow> \<exists>s. join_bits xs = Inr s \<and> length s = length xs"
proof (induction xs)
  case Nil
  then show ?case by simp
next
  case (Cons x xs)
  then obtain s where s: "join_bits xs = Inr s" "length s = length xs" by auto
  from Cons.prems have "x = PyInt 0 \<or> x = PyInt 1" by (simp add: is_bit_value_def)
  then show ?case using s by (auto simp: str_int_digit)
qed

lemma in_range_cases: "in_range W v \<Longrightarrow> \<exists>n. v = PyInt n \<and> 0 \<le> n \<and> n < 2 ^ W"
  by (cases v) auto

lemma valid_row_width:
  assumes "0 < W" and "valid_row W r" and "sample_to_string W r = Inr s"
  shows "length s = W"
proof -
  consider (bits) "bit_row W r"
    | (single) "\<not> bit_row W r" "is_seq r" "length (items r) = 1" "in_range W (items r ! 0)"
    | (bare) "in_range W r"
    using assms(2) by (auto simp: valid_row_def)
  then show ?thesis
  proof cases
    case bits
    then show ?thesis
      using assms(3) join_bits_bit_values[of "items r"]
      by (auto simp: bit_row_def sample_to_string_def)
  next
    case single
    from single(4) obtain n where n: "items r ! 0 = PyInt n" "0 \<le> n" "n < 2 ^ W"
      by (auto dest: in_range_cases)
    show ?thesis
    proof (cases "W = 1")
      case True
      from single(3) n(1) have "items r = [PyInt n]" by (cases "items r") auto
      moreover have "str_int n = Inr [digit_char (nat n)]"
        using n(2,3) True by (intro str_int_digit) auto
      ultimately have "sample_to_string W r = Inr [digit_char (nat n)]"
        using True single(2) by (simp add: sample_to_string_def)
      then show ?thesis using assms(3) True by auto
    next
      case False
      then have "sample_to_string W r = Inr (format_0b W n)"
        using single(2,3) n(1) by (simp add: sample_to_string_def)
      then show ?thesis
        using assms(1,3) n(2,3) by (auto simp: length_format_0b_in_range)
    qed
  next
    case bare
    then obtain n where n: "r = PyInt n" "0 \<le> n" "n < 2 ^ W" by (auto dest: in_range_cases)
    then have "sample_to_string W r = Inr (format_0b W n)" by (simp add: sample_to_string_def)
    then show ?thesis using assms(1,3) n(2,3) by (auto simp: length_format_0b_in_range)
  qed
qed

lemma valid_key_width:
  assumes "valid_key W k" and "to_bits k = Inr s"
  shows "length s = W"
proof (cases k)
  case (KStr x)
  then show ?thesis using assms by simp
next
  case (KObj obj)
  then show ?thesis using assms by (auto split: sum.splits)
next
  case (KVal v)
  then have "bit_row W v" using assms(1) by simp
  then obtain t where "join_bits (items v) = Inr t" "length t = W" "is_seq v"
    using join_bits_bit_values[of "items v"] by (auto simp: bit_row_def)
  then show ?thesis using assms(2) KVal by (simp add: join_iter_def)
qed

lemma quasi_counts_keys:
  "quasi_counts shots kps d = Inr cs \<Longrightarrow>
     fst ` set cs \<subseteq> fst ` set d \<union> {s. \<exists>k \<in> fst ` set kps. to_bits k = Inr s}"
proof (induction kps arbitrary: d)
  case Nil
  then show ?case by simp
next
  case (Cons kp kps)
  obtain k p where kp: "kp = (k, p)" by (cases kp)
  from Cons.prems kp obtain s c where s: "to_bits k = Inr s"
    and rest: "quasi_counts shots kps (dict_set d s c) = Inr cs"
    by (auto split: sum.splits)
  from Cons.IH[OF rest] show ?case using s kp by (auto simp: keys_dict_set)
qed

section \<open>Signs of the rounded counts and the entries of the comprehension\<close>

lemma round_half_even_nonneg: "0 \<le> m \<Longrightarrow> 0 \<le> round_half_even m s"
proof -
  assume "0 \<le> m"
  then have "0 \<le> m div 2 ^ s" by (simp add: pos_imp_zdiv_nonneg_iff)
  then show ?thesis by (simp add: round_half_even_def Let_def)
qed

lemma to_double_nonneg: "0 \<le> m \<Longrightarrow> nonneg_float (to_double m e)"
proof -
  assume m: "0 \<le> m"
  have a: "0 \<le> m * 2 ^ k" for k using m by simp
  have b: "0 \<le> round_half_even m k" for k using m by (rule round_half_even_nonneg)
  have c: "0 \<le> x \<Longrightarrow> 0 \<le> x div 2" for x :: int by simp
  show ?thesis
    using m a b by (auto simp: to_double_def Let_def intro!: c)
qed

lemma float_of_int_nonneg:
  assumes "0 \<le> n" and "float_of_int n = Inr f"
  shows "\<exists>m e. f = Finite m e \<and> 0 \<le> m"
proof -
  have "nonneg_float (to_double n 0)" using assms(1) by (rule to_double_nonneg)
  moreover have "to_double n 0 = f \<and> f \<noteq> PosInf"
    using assms(2) by (auto simp: float_of_int_def split: pyfloat.splits)
  ultimately show ?thesis by (cases f) auto
qed

lemma py_round_nonneg: "nonneg_float x \<Longrightarrow> py_round x = Inr c \<Longrightarrow> 0 \<le> c"
  by (cases x) (auto simp: round_half_even_nonneg)

lemma fmul_nonneg:
  assumes "nonneg_float p" and "0 \<le> m"
  shows "nonneg_float (fmul p (Finite m e)) \<or> fmul p (Finite m e) = NaN"
proof (cases p)
  case (Finite m1 e1)
  then have "0 \<le> m1 * m" using assms by simp
  then show ?thesis using Finite by (simp add: to_double_nonneg)
next
  case PosInf
  then show ?thesis using assms(2) by (auto simp: sgn_if)
next
  case NegInf
  then show ?thesis using assms(1) by simp
next
  case NaN
  then show ?thesis using assms(1) by simp
qed

lemma round_count_nonneg:
  assumes "nonneg_float p" and "0 \<le> shots" and "round_count p shots = Inr c"
  shows "0 \<le> c"
proof -
  from assms(3) obtain f where f: "float_of_int shots = Inr f" "py_round (fmul p f) = Inr c"
    by (auto simp: round_count_def split: sum.splits)
  from float_of_int_nonneg[OF assms(2) f(1)] obtain m e where me: "f = Finite m e" "0 \<le> m"
    by blast
  from fmul_nonneg[OF assms(1) me(2), of e] f(2) me(1) show ?thesis
    by (auto dest: py_round_nonneg)
qed

lemma set_dict_set: "set (dict_set d k v) \<subseteq> insert (k, v) (set d)"
  by (induction d k v rule: dict_set.induct) auto


lemma quasi_counts_entries:
  "quasi_counts shots kps d = Inr cs \<Longrightarrow> (s, c) \<in> set cs \<Longrightarrow>
     (s, c) \<in> set d \<or> (\<exists>(k, p) \<in> set kps. to_bits k = Inr s \<and> round_count p shots = Inr c)"
proof (induction kps arbitrary: d)
  case Nil
  then show ?case by simp
next
  case (Cons kp kps)
  obtain k p where kp: "kp = (k, p)" by (cases kp)
  from Cons.prems(1) kp obtain s' c' where s': "to_bits k = Inr s'" "round_count p shots = Inr c'"
    and rest: "quasi_counts shots kps (dict_set d s' c') = Inr cs"
    by (auto split: sum.splits)
  from Cons.IH[OF rest Cons.prems(2)] show ?case
  proof
    assume "(s, c) \<in> set (dict_set d s' c')"
    then have "(s, c) = (s', c') \<or> (s, c) \<in> set d" using set_dict_set by fastforce
    then show ?thesis using s' kp by auto
  next
    assume "\<exists>(k, p) \<in> set kps. to_bits k = Inr s \<and> round_count p shots = Inr c"
    then show ?thesis by auto
  qed
qed


section \<open>The rounded counts of the examples\<close>

lemma literals_nearest: "nearest_double 6 10 float_0_6" "nearest_double 4 10 float_0_4"
  by (simp_all add: float_0_6_def float_0_4_def)

lemma literals_nonneg: "nonneg_float float_0_6" "nonneg_float float_0_4"
  by (simp_all add: float_0_6_def float_0_4_def)

lemma float_of_int_10: "float_of_int 10 = Inr (Finite 5629499534213120 (- 49))"
  by (simp add: float_of_int_def to_double_def bit_length.simps round_half_even_def Let_def)

lemma round_count_example:
  "round_count float_0_6 10 = Inr 6" "round_count float_0_4 10 = Inr 4"
  by (simp_all add: round_count_def float_of_int_10 float_0_6_def float_0_4_def to_double_def
      bit_length.simps round_half_even_def Let_def)

lemma round_count_negative:
  "round_count (Finite (- 1) (- 1)) 4 = Inr (- 2)" "round_count (Finite 3 (- 1)) 4 = Inr 6"
  by (simp_all add: round_count_def float_of_int_def to_double_def bit_length.simps
      round_half_even_def Let_def)

section \<open>Totals over the trials\<close>

lemma trial_counts_delivers:
  assumes "delivers S raw" and "trial_counts shots raw = Inr cs"
  shows "sum_values cs = S"
proof (cases raw)
  case (QuasiDists keys probabilities)
  then show ?thesis using assms(1) by simp
next
  case (PubResult b)
  with assms(1) obtain rows where rows: "get_rows b = Inr rows" "int (length rows) = S"
    by (auto split: sum.splits)
  from assms(2) PubResult rows(1) obtain strings where
    strings: "strings_loop (get_width b) rows [] = Inr strings" "cs = Counter strings"
    by (auto simp: trial_counts_def bitarray_to_strings_def split: sum.splits)
  from strings_loop_append[OF strings(1)] have "length strings = length rows" by auto
  then show ?thesis using strings(2) rows(2) by (simp add: sum_values_Counter)
next
  case (AerCounts x)
  then show ?thesis using assms by (simp add: trial_counts_def)
qed

lemma run_loop_total:
  "run_loop shots raws aggregated = Inr res \<Longrightarrow>
     \<exists>css. map (trial_counts shots) raws = map Inr css
       \<and> sum_values res = sum_values aggregated + sum_list (map sum_values css)"
proof (induction raws arbitrary: aggregated)
  case Nil
  then show ?case by simp
next
  case (Cons raw raws)
  from Cons.prems obtain cs where cs: "trial_counts shots raw = Inr cs"
    and rest: "run_loop shots raws (counter_update aggregated cs) = Inr res"
    by (auto split: sum.splits)
  from Cons.IH[OF rest] obtain css where css: "map (trial_counts shots) raws = map Inr css"
    "sum_values res = sum_values (counter_update aggregated cs) + sum_list (map sum_values css)"
    by blast
  show ?case
    by (rule exI[of _ "cs # css"]) (simp add: cs css sum_values_counter_update)
qed

lemma delivered_totals:
  "list_all (delivers S) raws \<Longrightarrow> map (trial_counts shots) raws = map Inr css \<Longrightarrow>
     sum_list (map sum_values css) = int (length raws) * S"
proof (induction raws arbitrary: css)
  case Nil
  then show ?case by simp
next
  case (Cons raw raws)
  from Cons.prems(2) obtain cs css' where css: "css = cs # css'"
    "trial_counts shots raw = Inr cs" "map (trial_counts shots) raws = map Inr css'"
    by (cases css) auto
  have "sum_values cs = S" using Cons.prems(1) css(2) by (auto intro: trial_counts_delivers)
  moreover have "sum_list (map sum_values css') = int (length raws) * S"
    using Cons.prems(1) css(3) by (intro Cons.IH) auto
  ultimately show ?case by (simp add: css(1) algebra_simps)
qed

section \<open>Rendering of values and conversion of all rows\<close>



lemma collect_fails: "Inl e \<in> set rs \<Longrightarrow> \<exists>e'. collect rs = Inl e'"
  by (induction rs) (auto split: sum.splits)




section \<open>Correct rounding of the product and of the count\<close>



















lemma literals_nearest_more:
  "nearest_double 3 4 float_0_75" "nearest_double 1 4 float_0_25" "nearest_double 35 100 float_0_35"
  by (simp_all add: float_0_75_def float_0_25_def float_0_35_def)







section \<open>The claims\<close>

lemma sample_to_string_examples:
  "sample_to_string 3 (PyList [PyInt 0, PyInt 1, PyInt 1]) = Inr ''011''"
  "sample_to_string 3 (PyList [PyInt 1, PyInt 0, PyInt 0]) = Inr ''100''"
  by (simp_all add: sample_to_string_def str_int_digit digit_char_def)

text \<open>
  C5: normalising the bit-array rows \<open>[[0,1,1],[0,1,1],[1,0,0]]\<close> with a declared width of 3,
  whichever attribute of the bit array delivers the rows, yields exactly the counts mapping
  \<open>{"011": 2, "100": 1}\<close>.
\<close>

theorem example_rows_counts:
  assumes "get_rows b = Inr [PyList [PyInt 0, PyInt 1, PyInt 1],
                             PyList [PyInt 0, PyInt 1, PyInt 1],
                             PyList [PyInt 1, PyInt 0, PyInt 0]]"
    and "get_width b = 3"
  shows "trial_counts shots (PubResult b) = Inr [(''011'', 2), (''100'', 1)]"
  using assms
  by (simp add: trial_counts_def bitarray_to_strings_def sample_to_string_examples Counter_def)

theorem example_rows_counts_witness:
  "get_rows \<lparr>tolist_rows = None, array_private = None,
       array_public = Some [PyList [PyInt 0, PyInt 1, PyInt 1],
                            PyList [PyInt 0, PyInt 1, PyInt 1],
                            PyList [PyInt 1, PyInt 0, PyInt 0]],
       num_bits = None\<rparr>
     = Inr [PyList [PyInt 0, PyInt 1, PyInt 1],
            PyList [PyInt 0, PyInt 1, PyInt 1],
            PyList [PyInt 1, PyInt 0, PyInt 0]]
   \<and> get_width \<lparr>tolist_rows = None, array_private = None,
       array_public = Some [PyList [PyInt 0, PyInt 1, PyInt 1],
                            PyList [PyInt 0, PyInt 1, PyInt 1],
                            PyList [PyInt 1, PyInt 0, PyInt 0]],
       num_bits = None\<rparr> = 3
   \<and> trial_counts 1024 (PubResult \<lparr>tolist_rows = None, array_private = None,
       array_public = Some [PyList [PyInt 0, PyInt 1, PyInt 1],
                            PyList [PyInt 0, PyInt 1, PyInt 1],
                            PyList [PyInt 1, PyInt 0, PyInt 0]],
       num_bits = None\<rparr>) = Inr [(''011'', 2), (''100'', 1)]"
  using example_rows_counts [of "\<lparr>tolist_rows = None, array_private = None,
       array_public = Some [PyList [PyInt 0, PyInt 1, PyInt 1],
                            PyList [PyInt 0, PyInt 1, PyInt 1],
                            PyList [PyInt 1, PyInt 0, PyInt 0]],
       num_bits = None\<rparr>" 1024]
  by (simp add: get_rows_def get_width_def)

text \<open>
  C8: for every integer \<open>n\<close> in \<open>[0, 2^W)\<close>, encoding \<open>n\<close> as a zero-padded binary string
  of width \<open>W\<close> (as the decoder does for a row that holds an integer) and reading that string
  back as a binary numeral yields \<open>n\<close>; for \<open>W > 0\<close> the string has exactly \<open>W\<close> characters.
\<close>

theorem binary_round_trip:
  assumes "0 \<le> n" and "n < 2 ^ W"
  shows "decode_binary (format_0b W n) = Some n
       \<and> (0 < W \<longrightarrow> length (format_0b W n) = W)"
  using assms by (simp add: decode_format length_format_0b_in_range)

theorem binary_round_trip_witness:
  "(0::int) \<le> 5 \<and> (5::int) < 2 ^ 3 \<and> (0::nat) < 3 \<and> format_0b 3 5 = ''101''
   \<and> decode_binary (format_0b 3 5) = Some 5 \<and> length (format_0b 3 5) = 3"
  using binary_round_trip [of 5 3]
  by (simp add: format_0b_def zero_pad_def bin_digits.simps bit_char_def)

text \<open>
  C10, as stated: a single-element row or a bare integer whose value is at least \<open>2^W\<close>
  raises no error and gives a string strictly longer than \<open>W\<close>. It fails for \<open>W = 1\<close>:
  the single-element row \<open>[2]\<close> has length \<open>W\<close>, so the first branch of the loop joins the
  decimal renderings of its entries, and the result \<open>"2"\<close> has length 1.
\<close>

theorem oversized_row_counterexample:
  "(2::int) ^ 1 \<le> 2 \<and> sample_to_string 1 (PyList [PyInt 2]) = Inr ''2''
   \<and> \<not> 1 < length ''2''"
  by (simp add: sample_to_string_def str_int_digit digit_char_def)

text \<open>
  C10, amended: a bare integer whose value is at least \<open>2^W\<close>, and a single-element row
  holding such a value when \<open>W \<noteq> 1\<close>, raises no error and is rendered by the zero-padded
  binary format as a string strictly longer than \<open>W\<close>.
\<close>

theorem oversized_row_longer:
  assumes "2 ^ W \<le> n"
    and "(is_int sample \<and> int_value sample = n)
       \<or> (is_seq sample \<and> length (items sample) = 1 \<and> W \<noteq> 1
            \<and> py_int (items sample ! 0) = Inr n)"
  shows "sample_to_string W sample = Inr (format_0b W n) \<and> W < length (format_0b W n)"
proof -
  have long: "W < length (format_0b W n)" using assms(1) by (rule length_format_0b_beyond)
  from assms(2) have "sample_to_string W sample = Inr (format_0b W n)"
  proof
    assume a: "is_int sample \<and> int_value sample = n"
    then have "\<not> is_seq sample" by (cases sample) auto
    with a show ?thesis by (simp add: sample_to_string_def)
  next
    assume "is_seq sample \<and> length (items sample) = 1 \<and> W \<noteq> 1
      \<and> py_int (items sample ! 0) = Inr n"
    then show ?thesis by (simp add: sample_to_string_def)
  qed
  with long show ?thesis by simp
qed

theorem oversized_row_longer_witness:
  "(2::int) ^ 3 \<le> 9
   \<and> (is_seq (PyList [PyInt 9]) \<and> length (items (PyList [PyInt 9])) = 1 \<and> (3::nat) \<noteq> 1
        \<and> py_int (items (PyList [PyInt 9]) ! 0) = Inr 9)
   \<and> sample_to_string 3 (PyList [PyInt 9]) = Inr ''1001'' \<and> 3 < length ''1001''"
  using oversized_row_longer [of 3 9 "PyList [PyInt 9]"]
  by (simp add: format_0b_def zero_pad_def bin_digits.simps bit_char_def)

text \<open>
  C1: for every valid raw input of the normalizer and a register of \<open>W > 0\<close> bits, every
  bitstring key of the output counts mapping has length exactly \<open>W\<close>. Valid inputs are, for
  a quasi-distribution, keys that are strings of length \<open>W\<close>, objects whose \<^verbatim>\<open>to01()\<close>
  returns a string of length \<open>W\<close> (bit arrays of \<open>W\<close> bits) or rows of \<open>W\<close> values 0/1; for a bit-array result of declared width \<open>W\<close>, rows of \<open>W\<close>
  values 0/1, single-element rows holding an integer in \<open>[0, 2^W)\<close> and bare integers in
  \<open>[0, 2^W)\<close>; for the simulator's counts mapping, keys of length \<open>W\<close>.
\<close>

theorem normalised_keys_have_width:
  assumes "0 < W" and "valid_raw W raw" and "trial_counts shots raw = Inr cs"
    and "(s, c) \<in> set cs"
  shows "length s = W"
proof (cases raw)
  case (QuasiDists keys probabilities)
  then have "quasi_counts shots (zip keys probabilities) [] = Inr cs"
    using assms(3) by (simp add: trial_counts_def)
  then have "fst ` set cs \<subseteq> {s. \<exists>k \<in> fst ` set (zip keys probabilities). to_bits k = Inr s}"
    by (auto dest!: quasi_counts_keys)
  moreover have "s \<in> fst ` set cs" using assms(4) by force
  ultimately obtain k where "k \<in> fst ` set (zip keys probabilities)" "to_bits k = Inr s" by blast
  moreover then have "k \<in> set keys" by (auto dest: set_zip_leftD)
  ultimately show ?thesis
    using assms(2) QuasiDists by (auto simp: list_all_iff intro: valid_key_width)
next
  case (PubResult b)
  with assms(2) obtain rows where rows: "get_rows b = Inr rows" "list_all (valid_row W) rows"
    and w: "get_width b = W"
    by (auto split: sum.splits)
  from assms(3) PubResult rows(1) w obtain strings where
    strings: "strings_loop W rows [] = Inr strings" "cs = Counter strings"
    by (auto simp: trial_counts_def bitarray_to_strings_def split: sum.splits)
  have "s \<in> fst ` set cs" using assms(4) by force
  then have "s \<in> set strings" using strings(2) by (simp add: keys_Counter)
  then obtain i where i: "i < length strings" "strings ! i = s" by (auto simp: in_set_conv_nth)
  from strings_loop_append[OF strings(1)] have "length strings = length rows"
    and "\<forall>i < length rows. sample_to_string W (rows ! i) = Inr (strings ! i)" by auto
  with i have "sample_to_string W (rows ! i) = Inr s" "rows ! i \<in> set rows" by auto
  then show ?thesis using rows(2) assms(1) by (auto simp: list_all_iff intro: valid_row_width)
next
  case (AerCounts x)
  then show ?thesis using assms by (auto simp: trial_counts_def list_all_iff)
qed

theorem normalised_keys_have_width_witness:
  "(0::nat) < 3
   \<and> valid_raw 3 (PubResult \<lparr>tolist_rows = Some [PyList [PyInt 0, PyInt 1, PyInt 1], PyList [PyInt 5], PyInt 6],
         array_private = None, array_public = None, num_bits = Some 3\<rparr>)
   \<and> trial_counts 3 (PubResult \<lparr>tolist_rows = Some [PyList [PyInt 0, PyInt 1, PyInt 1], PyList [PyInt 5], PyInt 6],
         array_private = None, array_public = None, num_bits = Some 3\<rparr>)
       = Inr [(''011'', 1), (''101'', 1), (''110'', 1)]
   \<and> (''101'', 1) \<in> set [(''011'', 1), (''101'', 1), (''110'', 1 :: int)]
   \<and> length ''101'' = 3"
  using normalised_keys_have_width [of 3
      "PubResult \<lparr>tolist_rows = Some [PyList [PyInt 0, PyInt 1, PyInt 1], PyList [PyInt 5], PyInt 6],
         array_private = None, array_public = None, num_bits = Some 3\<rparr>"
      3 "[(''011'', 1), (''101'', 1), (''110'', 1)]" "''101''" 1]
  by (simp add: get_rows_def get_width_def valid_row_def bit_row_def is_bit_value_def
      trial_counts_def bitarray_to_strings_def sample_to_string_def str_int_digit
      digit_char_def format_0b_def zero_pad_def bin_digits.simps bit_char_def Counter_def)

text \<open>
  C7, as stated: every count of the output for a quasi-distribution is a non-negative
  integer. It fails for a negative quasi-probability: with \<open>shots = 4\<close> the probabilities
  \<open>-0.5\<close> and \<open>1.5\<close> give the counts \<open>-2\<close> and \<open>6\<close>.
\<close>

theorem quasi_counts_negative_counterexample:
  "trial_counts 4 (QuasiDists [KStr ''011'', KStr ''100''] [Finite (- 1) (- 1), Finite 3 (- 1)])
     = Inr [(''011'', - 2), (''100'', 6)]
   \<and> (- 2 :: int) < 0"
  by (simp add: trial_counts_def round_count_negative)

text \<open>
  C7, amended: for every quasi-distribution input whose probabilities are all non-negative,
  and a non-negative number of shots, every count of the output is a non-negative integer.
\<close>

theorem quasi_counts_nonneg:
  assumes "0 \<le> shots" and "list_all nonneg_float probabilities"
    and "trial_counts shots (QuasiDists keys probabilities) = Inr cs"
    and "(s, c) \<in> set cs"
  shows "0 \<le> c"
proof -
  from assms(3) have "quasi_counts shots (zip keys probabilities) [] = Inr cs"
    by (simp add: trial_counts_def)
  from quasi_counts_entries[OF this assms(4)] obtain k p where
    kp: "(k, p) \<in> set (zip keys probabilities)" "round_count p shots = Inr c"
    by auto
  then have "p \<in> set probabilities" by (auto dest: set_zip_rightD)
  then have "nonneg_float p" using assms(2) by (simp add: list_all_iff)
  then show ?thesis using assms(1) kp(2) by (rule round_count_nonneg)
qed

theorem quasi_counts_nonneg_witness:
  "(0::int) \<le> 10 \<and> list_all nonneg_float [float_0_6, float_0_4]
   \<and> trial_counts 10 (QuasiDists [KStr ''011'', KStr ''100''] [float_0_6, float_0_4])
       = Inr [(''011'', 6), (''100'', 4)]
   \<and> (''100'', 4) \<in> set [(''011'', 6), (''100'', 4 :: int)]
   \<and> (0::int) \<le> 4"
  using quasi_counts_nonneg [of 10 "[float_0_6, float_0_4]" "[KStr ''011'', KStr ''100'']"
      "[(''011'', 6), (''100'', 4)]" "''100''" 4]
  by (simp add: trial_counts_def round_count_example literals_nonneg)

text \<open>
  C2, as stated: after a run of \<open>T\<close> trials with \<open>S\<close> shots each, the values of the
  aggregate mapping total exactly \<open>T \<times> S\<close>. It fails for quasi-distribution results, whose
  probabilities are rounded key by key: one trial of 10 shots with the probabilities
  \<open>0.25, 0.25, 0.5\<close> gives the counts \<open>2, 2, 5\<close>, which total 9.
\<close>

theorem aggregate_total_counterexample:
  "run_aggregated 10
     [QuasiDists [KStr ''011'', KStr ''100'', KStr ''101'']
                 [Finite 1 (- 2), Finite 1 (- 2), Finite 1 (- 1)]]
     = Inr [(''011'', 2), (''100'', 2), (''101'', 5)]
   \<and> sum_values [(''011'', 2), (''100'', 2), (''101'', 5)] = 9
   \<and> (9::int) \<noteq> 1 * 10"
  by (simp add: run_aggregated_def trial_counts_def counter_update_def sum_values_def
      round_count_def float_of_int_10 to_double_def bit_length.simps round_half_even_def Let_def)

text \<open>
  C2, amended: after a run that completes, the values of the aggregate mapping total the
  sum of the totals of the per-trial counts mappings; when every trial delivers \<open>S\<close>
  samples (a bit-array result of \<open>S\<close> rows, or a counts mapping of the simulator that
  totals \<open>S\<close>), the total is exactly \<open>T \<times> S\<close>.
\<close>

theorem aggregate_total:
  assumes "run_aggregated shots raws = Inr aggregated"
  shows "(\<exists>css. map (trial_counts shots) raws = map Inr css
            \<and> sum_values aggregated = sum_list (map sum_values css))
       \<and> (list_all (delivers shots) raws \<longrightarrow>
            sum_values aggregated = int (length raws) * shots)"
proof -
  from assms have "run_loop shots raws [] = Inr aggregated" by (simp add: run_aggregated_def)
  from run_loop_total[OF this] obtain css where
    css: "map (trial_counts shots) raws = map Inr css"
      "sum_values aggregated = sum_list (map sum_values css)"
    by (auto simp: sum_values_def)
  have "list_all (delivers shots) raws \<longrightarrow> sum_values aggregated = int (length raws) * shots"
    using delivered_totals[OF _ css(1)] css(2) by simp
  with css show ?thesis by blast
qed

theorem aggregate_total_witness:
  "run_aggregated 2
     [PubResult \<lparr>tolist_rows = Some [PyInt 3, PyInt 4], array_private = None,
                 array_public = None, num_bits = None\<rparr>,
      AerCounts [(''011'', 2)]]
     = Inr [(''011'', 3), (''100'', 1)]
   \<and> list_all (delivers 2)
       [PubResult \<lparr>tolist_rows = Some [PyInt 3, PyInt 4], array_private = None,
                   array_public = None, num_bits = None\<rparr>,
        AerCounts [(''011'', 2)]]
   \<and> sum_values [(''011'', 3), (''100'', 1)] = int (length
       [PubResult \<lparr>tolist_rows = Some [PyInt 3, PyInt 4], array_private = None,
                   array_public = None, num_bits = None\<rparr>,
        AerCounts [(''011'', 2)]]) * 2"
  using aggregate_total [of 2
      "[PubResult \<lparr>tolist_rows = Some [PyInt 3, PyInt 4], array_private = None,
                   array_public = None, num_bits = None\<rparr>,
        AerCounts [(''011'', 2)]]"
      "[(''011'', 3), (''100'', 1)]"]
  by (simp add: run_aggregated_def trial_counts_def bitarray_to_strings_def get_rows_def
      get_width_def sample_to_string_def format_0b_def zero_pad_def bin_digits.simps bit_char_def
      Counter_def counter_update_def sum_values_def)











end
